theory Spec2Isabelle
  imports Main "HOL-Library.Sublist"
begin

section \<open>Species name cleanup: the classifier \<open>clean_species_name\<close>\<close>

text \<open>
  The development embeds the function \<open>clean_species_name\<close> of
  \<^verbatim>\<open>clean_species_names.py\<close> (lines 25 to 144).

  A Python \<open>str\<close> is a sequence of code points. Here it is a \<open>string\<close> whose
  characters stand for the code points U+0000 to U+00FF, one \<open>char\<close> for one code
  point; the character tests below are Python's on that range.
  \<open>None\<close> and NaN (\<open>pd.isna\<close>) are \<open>None\<close> of an option type.
\<close>

subsection \<open>Python's character and string primitives\<close>

definition py_isspace :: "char \<Rightarrow> bool" where
  \<comment> \<open>\<open>str.isspace\<close> of one character; also the set that \<open>str.strip()\<close>, \<open>str.split()\<close>
      and the pattern \<open>\s\<close> use.\<close>
  "py_isspace c =
     (let n = (of_char c :: nat)
      in (9 \<le> n \<and> n \<le> 13) \<or> (28 \<le> n \<and> n \<le> 32) \<or> n = 133 \<or> n = 160)"

definition py_isupper :: "char \<Rightarrow> bool" where
  \<comment> \<open>\<open>str.isupper\<close> of one character: A to Z and the capital letters of Latin-1.\<close>
  "py_isupper c =
     (let n = (of_char c :: nat)
      in (65 \<le> n \<and> n \<le> 90) \<or> (192 \<le> n \<and> n \<le> 214) \<or> (216 \<le> n \<and> n \<le> 222))"

definition ascii_lower :: "char \<Rightarrow> bool" where
  \<comment> \<open>the character class \<open>[a-z]\<close>\<close>
  "ascii_lower c = (let n = (of_char c :: nat) in 97 \<le> n \<and> n \<le> 122)"

definition py_lower_char :: "char \<Rightarrow> char" where
  "py_lower_char c = (if py_isupper c then char_of ((of_char c :: nat) + 32) else c)"

definition py_lower :: "string \<Rightarrow> string" where
  \<comment> \<open>\<open>str.lower()\<close>\<close>
  "py_lower s = map py_lower_char s"

definition py_strip :: "string \<Rightarrow> string" where
  \<comment> \<open>\<open>str.strip()\<close> with no argument\<close>
  "py_strip s = rev (dropWhile py_isspace (rev (dropWhile py_isspace s)))"

fun split_from :: "string \<Rightarrow> string \<Rightarrow> string list" where
  \<comment> \<open>the scan of \<open>str.split()\<close>: \<open>cur\<close> is the token read so far\<close>
  "split_from cur [] = (if cur = [] then [] else [cur])"
| "split_from cur (c # cs) =
     (if py_isspace c
      then (if cur = [] then split_from [] cs else cur # split_from [] cs)
      else split_from (cur @ [c]) cs)"

definition py_split :: "string \<Rightarrow> string list" where
  \<comment> \<open>\<open>str.split()\<close> with no argument: the maximal runs of non-whitespace\<close>
  "py_split s = split_from [] s"

fun join_space :: "string list \<Rightarrow> string" where
  \<comment> \<open>\<open>' '.join(xs)\<close>\<close>
  "join_space [] = []"
| "join_space [x] = x"
| "join_space (x # y # ys) = x @ '' '' @ join_space (y # ys)"

subsection \<open>The regular expressions of the classifier\<close>

text \<open>
  Each fixed pattern is a function that decides \<open>re.match\<close> for it. \<open>$\<close> matches at
  the end of the string and also before a newline that ends the string.
\<close>

definition at_dollar :: "string \<Rightarrow> bool" where
  "at_dollar r = (r = [] \<or> r = [CHR 0x0A])"

definition is_s :: "char \<Rightarrow> bool" where
  "is_s c = (c = CHR ''s'' \<or> c = CHR ''S'')"

definition is_p :: "char \<Rightarrow> bool" where
  "is_p c = (c = CHR ''p'' \<or> c = CHR ''P'')"

fun match_sp :: "string \<Rightarrow> bool" where
  \<comment> \<open>\<open>re.match(r'^sp\.?$', e, re.IGNORECASE)\<close>\<close>
  "match_sp (a # b # r) =
     (is_s a \<and> is_p b \<and> (at_dollar r \<or> (case r of [] \<Rightarrow> False | d # r' \<Rightarrow> d = CHR ''.'' \<and> at_dollar r')))"
| "match_sp _ = False"

fun match_sp_code :: "string \<Rightarrow> bool" where
  \<comment> \<open>\<open>re.match(r'^sp[._]', e, re.IGNORECASE)\<close>\<close>
  "match_sp_code (a # b # d # r) = (is_s a \<and> is_p b \<and> (d = CHR ''.'' \<or> d = CHR ''_''))"
| "match_sp_code _ = False"

definition is_uncertain :: "string \<Rightarrow> bool" where
  \<comment> \<open>\<open>e.lower() in ['aff.', 'cf.']\<close>\<close>
  "is_uncertain e = (py_lower e = ''aff.'' \<or> py_lower e = ''cf.'')"

definition lower_run :: "string \<Rightarrow> string" where
  \<comment> \<open>group 1 of \<open>re.match(r'^([a-z]+)', e)\<close>; empty when there is no match\<close>
  "lower_run e = takeWhile ascii_lower e"

definition match_subspecies :: "string \<Rightarrow> bool" where
  \<comment> \<open>\<open>re.match(r'^[a-z]+$', t)\<close>\<close>
  "match_subspecies t = (takeWhile ascii_lower t \<noteq> [] \<and> at_dollar (dropWhile ascii_lower t))"

subsection \<open>The patterns built from the genus\<close>

text \<open>
  Lines 56 to 58 put the genus text into a pattern as it is, with no escaping.
  A genus without any of the special characters of \<open>re\<close> is a literal, and the two
  patterns are decided here. A genus that starts with a repetition character (after
  \<open>^\<close> there is nothing to repeat) or that opens a group which nothing can close does
  not compile: \<open>re.match\<close> raises \<open>re.error\<close>. Any other genus is a regular expression
  of its own; what \<open>re\<close> does with it is a parameter of the model, the record
  \<open>re_module\<close>.
\<close>

datatype py_error = ReError | IndexError

record re_module =
  re_match :: "string \<Rightarrow> string \<Rightarrow> py_error + bool"
    \<comment> \<open>\<open>re.match(pattern, string)\<close>: whether there is a match, or \<open>re.error\<close>\<close>
  re_sub :: "string \<Rightarrow> string \<Rightarrow> string \<Rightarrow> nat \<Rightarrow> py_error + string"
    \<comment> \<open>\<open>re.sub(pattern, repl, string, count)\<close>\<close>

definition re_special :: "char \<Rightarrow> bool" where
  "re_special c = (c \<in> set ''.^$*+?{}[]|()'' \<or> c = CHR 0x5C)"

definition plain_text :: "string \<Rightarrow> bool" where
  "plain_text g = list_all (\<lambda>c. \<not> re_special c) g"

definition cannot_compile :: "string \<Rightarrow> bool" where
  "cannot_compile g =
     ((case g of [] \<Rightarrow> False | c # _ \<Rightarrow> c = CHR ''*'' \<or> c = CHR ''+'' \<or> c = CHR ''?'')
      \<or> (CHR ''('' \<in> set g \<and> CHR '')'' \<notin> set g \<and> CHR ''['' \<notin> set g \<and> CHR 0x5C \<notin> set g))"

definition ws_plus :: "string" where
  \<comment> \<open>the pattern text \<open>\s+\<close>\<close>
  "ws_plus = [CHR 0x5C, CHR ''s'', CHR ''+'']"

definition doubled_pattern :: "string \<Rightarrow> string" where
  "doubled_pattern genus_str = ''^'' @ genus_str @ ws_plus @ genus_str @ ws_plus"

definition prefix_pattern :: "string \<Rightarrow> string" where
  "prefix_pattern genus_str = ''^'' @ genus_str @ ws_plus"

definition lit_then :: "string \<Rightarrow> (string \<Rightarrow> bool) \<Rightarrow> string \<Rightarrow> bool" where
  \<comment> \<open>the literal \<open>g\<close>, then the rest of the pattern\<close>
  "lit_then g k s = (prefix g s \<and> k (drop (length g) s))"

fun ws_then :: "(string \<Rightarrow> bool) \<Rightarrow> string \<Rightarrow> bool" where
  \<comment> \<open>\<open>\s+\<close>, then the rest of the pattern, for some length of the whitespace run\<close>
  "ws_then k [] = False"
| "ws_then k (c # cs) = (py_isspace c \<and> (k cs \<or> ws_then k cs))"

definition match_doubled_plain :: "string \<Rightarrow> string \<Rightarrow> bool" where
  "match_doubled_plain g s = lit_then g (ws_then (lit_then g (ws_then (\<lambda>r. True)))) s"

definition sub_prefix_plain :: "string \<Rightarrow> string \<Rightarrow> string" where
  \<comment> \<open>the one match of \<open>^g\s+\<close> is at the start and takes the whole whitespace run\<close>
  "sub_prefix_plain g s =
     (if lit_then g (ws_then (\<lambda>r. True)) s
      then dropWhile py_isspace (drop (length g) s) else s)"

definition match_doubled :: "re_module \<Rightarrow> string \<Rightarrow> string \<Rightarrow> py_error + bool" where
  \<comment> \<open>\<open>re.match(doubled_pattern, species_str)\<close>, line 57\<close>
  "match_doubled re genus_str species_str =
     (if plain_text genus_str then Inr (match_doubled_plain genus_str species_str)
      else if cannot_compile genus_str then Inl ReError
      else re_match re (doubled_pattern genus_str) species_str)"

definition sub_genus_prefix :: "re_module \<Rightarrow> string \<Rightarrow> string \<Rightarrow> py_error + string" where
  \<comment> \<open>\<open>re.sub(f"^{genus_str}\\s+", "", species_str, count=1)\<close>, line 58\<close>
  "sub_genus_prefix re genus_str species_str =
     (if plain_text genus_str then Inr (sub_prefix_plain genus_str species_str)
      else if cannot_compile genus_str then Inl ReError
      else re_sub re (prefix_pattern genus_str) [] species_str 1)"

subsection \<open>The classifier\<close>

type_synonym parse_result = "string option \<times> string option \<times> string option"

definition genus_given :: "string option \<Rightarrow> string option" where
  \<comment> \<open>\<open>genus_value and pd.notna(genus_value)\<close>: a genus that is there and not empty\<close>
  "genus_given genus_value =
     (case genus_value of None \<Rightarrow> None | Some g \<Rightarrow> if g = [] then None else Some g)"

definition remove_doubled_genus :: "re_module \<Rightarrow> string option \<Rightarrow> string \<Rightarrow> py_error + string" where
  \<comment> \<open>lines 53 to 58: the value of \<open>species_str\<close> at line 61\<close>
  "remove_doubled_genus re genus_value species_str =
     (case genus_given genus_value of
        None \<Rightarrow> Inr species_str
      | Some g \<Rightarrow>
          (let genus_str = py_strip g
           in case match_doubled re genus_str species_str of
                Inl e \<Rightarrow> Inl e
              | Inr True \<Rightarrow> sub_genus_prefix re genus_str species_str
              | Inr False \<Rightarrow> Inr species_str))"

fun resolve_genus :: "string option \<Rightarrow> string list \<Rightarrow> py_error + (string \<times> string list) option" where
  \<comment> \<open>lines 70 to 79: \<open>genus_part\<close> and \<open>remaining_parts\<close>, or no genus available\<close>
  "resolve_genus genus_value [] = Inl IndexError"
| "resolve_genus genus_value ([] # ps) = Inl IndexError"
| "resolve_genus genus_value ((c # cs) # ps) =
     (if py_isupper c then Inr (Some (c # cs, ps))
      else (case genus_given genus_value of
              Some g \<Rightarrow> Inr (Some (py_strip g, (c # cs) # ps))
            | None \<Rightarrow> Inr None))"

definition classify_remaining :: "string \<Rightarrow> string list \<Rightarrow> string \<Rightarrow> parse_result" where
  \<comment> \<open>lines 81 to 144\<close>
  "classify_remaining genus_part remaining_parts species_str =
     (case remaining_parts of
        [] \<Rightarrow> (None, None, Some species_str)
      | species_epithet # after \<Rightarrow>
          if match_sp species_epithet then (None, None, Some species_str)
          else if match_sp_code species_epithet then (None, None, Some species_str)
          else if is_uncertain species_epithet then (None, None, Some species_str)
          else
            (let canonical_species = lower_run species_epithet
             in if canonical_species = [] then (None, None, Some species_str)
                else
                  (let suffix_from_species = drop (length canonical_species) species_epithet;
                       binomial = genus_part @ '' '' @ canonical_species
                   in case after of
                        [] \<Rightarrow>
                          if suffix_from_species \<noteq> [] then (Some binomial, None, Some suffix_from_species)
                          else (Some binomial, None, None)
                      | next_part # rest \<Rightarrow>
                          if match_subspecies next_part
                          then (let trinomial = binomial @ '' '' @ next_part
                                in if rest \<noteq> [] then (Some binomial, Some trinomial, Some (join_space rest))
                                   else (Some binomial, Some trinomial, None))
                          else (let suffix0 = join_space (next_part # rest);
                                    suffix = (if suffix_from_species \<noteq> [] then suffix_from_species @ '' '' @ suffix0
                                              else if suffix_from_species \<noteq> [] then suffix_from_species
                                              else suffix0)
                                in (Some binomial, None, if suffix \<noteq> [] then Some suffix else None)))))"

definition classify_str :: "string option \<Rightarrow> string \<Rightarrow> py_error + parse_result" where
  \<comment> \<open>lines 61 to 144, from the value of \<open>species_str\<close> at line 61\<close>
  "classify_str genus_value species_str =
     (let parts = py_split species_str
      in if parts = [] then Inr (None, None, None)
         else (case resolve_genus genus_value parts of
                 Inl e \<Rightarrow> Inl e
               | Inr None \<Rightarrow> Inr (None, None, Some species_str)
               | Inr (Some (genus_part, remaining_parts)) \<Rightarrow>
                   Inr (classify_remaining genus_part remaining_parts species_str)))"

definition clean_species_name ::
    "re_module \<Rightarrow> string option \<Rightarrow> string option \<Rightarrow> py_error + parse_result" where
  "clean_species_name re species_value genus_value =
     (case species_value of
        None \<Rightarrow> Inr (None, None, None)
      | Some sv \<Rightarrow>
          if sv = [] then Inr (None, None, None)
          else (case remove_doubled_genus re genus_value (py_strip sv) of
                  Inl e \<Rightarrow> Inl e
                | Inr species_str \<Rightarrow> classify_str genus_value species_str))"

definition no_re :: "re_module" where
  \<comment> \<open>a regex module that is never asked: every call raises\<close>
  "no_re = \<lparr> re_match = (\<lambda>p s. Inl ReError), re_sub = (\<lambda>p r s n. Inl ReError) \<rparr>"

subsection \<open>Predicates of the proofs\<close>

definition no_space :: "string \<Rightarrow> bool" where
  \<comment> \<open>no whitespace character in the string\<close>
  "no_space w = list_all (\<lambda>c. \<not> py_isspace c) w"

definition trimmed :: "string \<Rightarrow> bool" where
  \<comment> \<open>neither the first nor the last character is whitespace\<close>
  "trimmed s = (s = [] \<or> (\<not> py_isspace (hd s) \<and> \<not> py_isspace (last s)))"

definition epithet_tail :: "string \<Rightarrow> string" where
  \<comment> \<open>\<open>suffix_from_species\<close> of line 110, as a function of the epithet\<close>
  "epithet_tail e = drop (length (lower_run e)) e"

definition plain_species_str :: "string option \<Rightarrow> string \<Rightarrow> string" where
  \<comment> \<open>\<open>species_str\<close> at line 61 when the genus is a literal: the string itself, or the
      string without its first genus and the whitespace after it when the doubled genus
      matches\<close>
  "plain_species_str genus_value s =
     (case genus_given genus_value of
        None \<Rightarrow> s
      | Some g \<Rightarrow>
          if match_doubled_plain (py_strip g) s
          then dropWhile py_isspace (drop (length (py_strip g)) s)
          else s)"

definition plain_genus :: "string option \<Rightarrow> bool" where
  \<comment> \<open>the genus is absent, empty, or free of the special characters of \<open>re\<close>\<close>
  "plain_genus genus_value =
     (case genus_given genus_value of None \<Rightarrow> True | Some g \<Rightarrow> plain_text (py_strip g))"

section \<open>Properties\<close>

subsection \<open>Characters, \<open>split\<close> and \<open>strip\<close>\<close>

lemma ascii_lower_not_space: "ascii_lower c \<Longrightarrow> \<not> py_isspace c"
  by (auto simp: ascii_lower_def py_isspace_def Let_def)

lemma ascii_lower_not_upper: "ascii_lower c \<Longrightarrow> \<not> py_isupper c"
  by (auto simp: ascii_lower_def py_isupper_def Let_def)

lemma upper_not_space: "py_isupper c \<Longrightarrow> \<not> py_isspace c"
  by (auto simp: py_isupper_def py_isspace_def Let_def)

lemma split_from_word: "no_space w \<Longrightarrow> split_from cur (w @ s) = split_from (cur @ w) s"
  by (induction w arbitrary: cur) (auto simp: no_space_def)

lemma split_from_tokens:
  "no_space cur \<Longrightarrow> t \<in> set (split_from cur s) \<Longrightarrow> t \<noteq> [] \<and> no_space t"
  by (induction cur s rule: split_from.induct) (auto simp: no_space_def split: if_splits)

lemma py_split_tokens: "t \<in> set (py_split s) \<Longrightarrow> t \<noteq> [] \<and> no_space t"
  unfolding py_split_def using split_from_tokens [of "[]" t s] by (simp add: no_space_def)

lemma split_from_last_word:
  "py_isspace sp \<Longrightarrow> no_space w \<Longrightarrow> w \<noteq> [] \<Longrightarrow>
   split_from cur (xs @ sp # w) = split_from cur xs @ [w]"
proof (induction xs arbitrary: cur)
  case Nil
  have "split_from [] w = [w]"
    using split_from_word [of w "[]" "[]"] Nil by simp
  then show ?case using Nil by simp
next
  case (Cons x xs)
  then show ?case by simp
qed

lemma split_from_nonempty:
  "cur \<noteq> [] \<or> (\<exists>c \<in> set s. \<not> py_isspace c) \<Longrightarrow> split_from cur s \<noteq> []"
  by (induction cur s rule: split_from.induct) auto

lemma py_strip_trimmed: "trimmed s \<Longrightarrow> py_strip s = s"
proof (cases s)
  case Nil
  then show ?thesis by (simp add: py_strip_def)
next
  case (Cons a as)
  assume "trimmed s"
  with Cons have a: "\<not> py_isspace a" and l: "\<not> py_isspace (last s)"
    by (auto simp: trimmed_def)
  from a Cons have 1: "dropWhile py_isspace s = s" by simp
  from Cons have "rev s \<noteq> []" by simp
  then have "hd (rev s) = last s" by (simp add: hd_rev)
  with l have 2: "dropWhile py_isspace (rev s) = rev s"
    by (simp add: dropWhile_eq_self_iff)
  show ?thesis by (simp add: py_strip_def 1 2)
qed

lemma trimmed_py_strip: "trimmed (py_strip s)"
proof (cases "py_strip s = []")
  case True
  then show ?thesis by (simp add: trimmed_def)
next
  case False
  define u where "u = dropWhile py_isspace s"
  define v where "v = dropWhile py_isspace (rev u)"
  have sv: "py_strip s = rev v" by (simp add: py_strip_def u_def v_def)
  with False have vne: "v \<noteq> []" by simp
  then have hv: "\<not> py_isspace (hd v)" unfolding v_def by (metis hd_dropWhile)
  have "rev u = takeWhile py_isspace (rev u) @ v" by (simp add: v_def)
  then have "u = rev v @ rev (takeWhile py_isspace (rev u))"
    by (metis rev_append rev_rev_ident)
  with vne have "hd u = hd (rev v)" by (metis hd_append2 rev_is_Nil_conv)
  moreover have "u \<noteq> []" using vne v_def by auto
  then have "\<not> py_isspace (hd u)" unfolding u_def by (metis hd_dropWhile)
  ultimately have "\<not> py_isspace (hd (rev v))" by simp
  moreover have "last (rev v) = hd v" using vne by (simp add: last_rev)
  ultimately show ?thesis using hv sv by (simp add: trimmed_def)
qed

lemma no_space_trimmed: "no_space w \<Longrightarrow> trimmed w"
  by (cases w) (auto simp: trimmed_def no_space_def list_all_iff)

lemma py_split_word: "no_space w \<Longrightarrow> w \<noteq> [] \<Longrightarrow> py_split w = [w]"
  using split_from_word [of w "[]" "[]"] by (simp add: py_split_def)

lemma py_split_single:
  assumes "trimmed s" and "py_split s = [x]"
  shows "s = x"
proof (cases "no_space s")
  case True
  show ?thesis
  proof (cases "s = []")
    case True
    with assms(2) show ?thesis by (simp add: py_split_def)
  next
    case False
    with \<open>no_space s\<close> have "py_split s = [s]" by (rule py_split_word)
    with assms(2) show ?thesis by simp
  qed
next
  case False
  define a where "a = takeWhile (\<lambda>c. \<not> py_isspace c) s"
  define b where "b = dropWhile (\<lambda>c. \<not> py_isspace c) s"
  have s: "s = a @ b" by (simp add: a_def b_def)
  have na: "no_space a" by (auto simp: a_def no_space_def list_all_iff dest: set_takeWhileD)
  from False have bne: "b \<noteq> []"
    by (auto simp: b_def no_space_def list_all_iff)
  then obtain sp b' where b: "b = sp # b'" by (cases b) auto
  have sp: "py_isspace sp" using b b_def by (metis hd_dropWhile list.sel(1) bne)
  from False have sne: "s \<noteq> []" by (auto simp: no_space_def)
  with assms have hs: "\<not> py_isspace (hd s)" and ls: "\<not> py_isspace (last s)"
    by (auto simp: trimmed_def)
  have ane: "a \<noteq> []" using hs sne by (cases s) (auto simp: a_def)
  have "last s = last b" using s bne by simp
  with ls sp b have b'ne: "b' \<noteq> []" by (cases b') auto
  with ls \<open>last s = last b\<close> b have "\<not> py_isspace (last b')" by simp
  with b'ne have ex: "\<exists>c \<in> set b'. \<not> py_isspace c" by (meson last_in_set)
  have "py_split s = split_from a (sp # b')"
    unfolding py_split_def s b using split_from_word [OF na, of "[]"] by simp
  also have "\<dots> = a # split_from [] b'" using sp ane by simp
  finally have "py_split s = a # split_from [] b'" .
  moreover have "split_from [] b' \<noteq> []" using ex split_from_nonempty by blast
  ultimately show ?thesis using assms(2) by simp
qed

subsection \<open>The steps of the classifier\<close>

lemma remove_doubled_genus_absent:
  "genus_given genus = None \<Longrightarrow> remove_doubled_genus re genus s = Inr s"
  by (simp add: remove_doubled_genus_def)

lemma remove_doubled_genus_plain:
  assumes "genus_given genus = Some g" and "plain_text (py_strip g)"
  shows "remove_doubled_genus re genus s =
           Inr (if match_doubled_plain (py_strip g) s
                then dropWhile py_isspace (drop (length (py_strip g)) s) else s)"
proof -
  have "match_doubled_plain (py_strip g) s \<Longrightarrow> lit_then (py_strip g) (ws_then (\<lambda>r. True)) s"
    by (cases "drop (length (py_strip g)) s") (auto simp: match_doubled_plain_def lit_then_def)
  then show ?thesis using assms
    by (simp add: remove_doubled_genus_def match_doubled_def sub_genus_prefix_def
        sub_prefix_plain_def Let_def)
qed

lemma remove_doubled_genus_total:
  assumes "plain_genus genus"
  shows "\<exists>str. remove_doubled_genus re genus s = Inr str \<and> remove_doubled_genus re' genus s = Inr str"
proof (cases "genus_given genus")
  case None
  then show ?thesis by (simp add: remove_doubled_genus_absent)
next
  case (Some g)
  with assms have "plain_text (py_strip g)" by (simp add: plain_genus_def)
  with Some show ?thesis by (simp add: remove_doubled_genus_plain)
qed

lemma resolve_genus_token:
  "p \<noteq> [] \<Longrightarrow> resolve_genus genus (p # ps) =
     Inr (if py_isupper (hd p) then Some (p, ps)
          else (case genus_given genus of Some g \<Rightarrow> Some (py_strip g, p # ps) | None \<Rightarrow> None))"
  by (cases p) (auto split: option.splits)

lemma resolve_genus_split:
  "py_split s \<noteq> [] \<Longrightarrow> \<exists>r. resolve_genus genus (py_split s) = Inr r"
proof -
  assume "py_split s \<noteq> []"
  then obtain p ps where ps: "py_split s = p # ps" by (cases "py_split s") auto
  then have "p \<noteq> []" using py_split_tokens [of p s] by simp
  then show ?thesis using ps by (simp add: resolve_genus_token)
qed

lemma classify_str_total: "\<exists>r. classify_str genus s = Inr r"
proof (cases "py_split s = []")
  case True
  then show ?thesis by (simp add: classify_str_def)
next
  case False
  then obtain r where "resolve_genus genus (py_split s) = Inr r"
    using resolve_genus_split by blast
  with False show ?thesis
    by (cases r) (simp_all add: classify_str_def split: prod.splits del: split_paired_Ex)
qed

lemma resolve_genus_parts:
  assumes "resolve_genus genus parts = Inr (Some (gp, rem))"
  shows "parts \<noteq> [] \<and> set rem \<subseteq> set parts \<and>
         ((gp = hd parts \<and> gp \<noteq> [] \<and> py_isupper (hd gp) \<and> rem = tl parts)
          \<or> (\<exists>g. genus_given genus = Some g \<and> gp = py_strip g \<and> rem = parts \<and> \<not> py_isupper (hd (hd parts))))"
  using assms
  by (induction genus parts rule: resolve_genus.induct) (auto split: if_splits option.splits)

lemma clean_species_name_str:
  assumes "sv \<noteq> []" and "remove_doubled_genus re genus (py_strip sv) = Inr str"
  shows "clean_species_name re (Some sv) genus = classify_str genus str"
  using assms by (simp add: clean_species_name_def)

lemma classify_str_resolved:
  assumes "resolve_genus genus (py_split str) = Inr (Some (gp, rem))"
  shows "classify_str genus str = Inr (classify_remaining gp rem str)"
proof -
  from assms have "py_split str \<noteq> []" using resolve_genus_parts by blast
  with assms show ?thesis by (simp add: classify_str_def)
qed

lemma classify_remaining_placeholder:
  "match_sp e \<or> match_sp_code e \<or> is_uncertain e \<Longrightarrow>
   classify_remaining gp (e # after) str = (None, None, Some str)"
  by (auto simp: classify_remaining_def)

lemma classify_remaining_epithet:
  assumes "\<not> match_sp e" "\<not> match_sp_code e" "\<not> is_uncertain e" "lower_run e \<noteq> []"
  shows "classify_remaining gp (e # after) str =
     (case after of
        [] \<Rightarrow> (Some (gp @ '' '' @ lower_run e), None,
               if epithet_tail e \<noteq> [] then Some (epithet_tail e) else None)
      | n # rest \<Rightarrow>
          if match_subspecies n
          then (Some (gp @ '' '' @ lower_run e), Some (gp @ '' '' @ lower_run e @ '' '' @ n),
                if rest \<noteq> [] then Some (join_space rest) else None)
          else (Some (gp @ '' '' @ lower_run e), None,
                if epithet_tail e \<noteq> [] then Some (epithet_tail e @ '' '' @ join_space (n # rest))
                else if join_space (n # rest) \<noteq> [] then Some (join_space (n # rest)) else None))"
  using assms by (auto simp: classify_remaining_def epithet_tail_def Let_def split: list.splits)

lemma classify_remaining_shapes:
  "classify_remaining gp rem str = (None, None, Some str)
   \<or> (\<exists>e after. rem = e # after \<and> \<not> match_sp e \<and> \<not> match_sp_code e \<and> \<not> is_uncertain e
        \<and> lower_run e \<noteq> [] \<and> fst (classify_remaining gp rem str) = Some (gp @ '' '' @ lower_run e))"
  by (cases rem) (auto simp: classify_remaining_def Let_def split: list.splits)

lemma classify_remaining_trinomial:
  assumes "classify_remaining gp rem str = (b, t, s)"
  shows "(b = None \<longrightarrow> t = None) \<and>
         (\<forall>tr. t = Some tr \<longrightarrow> (\<exists>bn tok. b = Some bn \<and> tr = bn @ '' '' @ tok \<and> match_subspecies tok))"
  using assms by (cases rem) (auto simp: classify_remaining_def Let_def split: list.splits if_splits)

lemma join_space_nonempty: "n \<noteq> [] \<Longrightarrow> join_space (n # rest) \<noteq> []"
  by (cases rest) auto

lemmas run_defs =
  clean_species_name_def remove_doubled_genus_def genus_given_def py_strip_def py_isspace_def
  match_doubled_def plain_text_def re_special_def cannot_compile_def match_doubled_plain_def
  lit_then_def sub_genus_prefix_def sub_prefix_plain_def classify_str_def py_split_def
  py_isupper_def classify_remaining_def is_s_def is_p_def is_uncertain_def py_lower_def
  py_lower_char_def lower_run_def ascii_lower_def match_subspecies_def at_dollar_def

lemma classify_str_shapes:
  assumes "classify_str genus str = Inr r" and "fst r = None"
  shows "r = (None, None, None) \<or> r = (None, None, Some str)"
proof (cases "py_split str = []")
  case True
  with assms show ?thesis by (auto simp: classify_str_def)
next
  case False
  then obtain q where q: "resolve_genus genus (py_split str) = Inr q"
    using resolve_genus_split by blast
  show ?thesis
  proof (cases q)
    case None
    with q assms False show ?thesis by (auto simp: classify_str_def)
  next
    case (Some pr)
    then obtain gp rem where "q = Some (gp, rem)" by (cases pr) auto
    with q assms have "r = classify_remaining gp rem str"
      by (simp add: classify_str_resolved)
    with assms(2) show ?thesis using classify_remaining_shapes [of gp rem str] by auto
  qed
qed

lemma remaining_tokens:
  assumes "resolve_genus genus (py_split str) = Inr (Some (gp, rem))" and "n \<in> set rem"
  shows "n \<noteq> []"
proof -
  from assms have "n \<in> set (py_split str)" using resolve_genus_parts by blast
  then show ?thesis using py_split_tokens by blast
qed

subsection \<open>Lowercase epithets and the second run\<close>

lemma lower_run_all: "list_all ascii_lower c \<Longrightarrow> lower_run c = c"
  by (simp add: lower_run_def list_all_iff)

lemma epithet_tail_all: "list_all ascii_lower c \<Longrightarrow> epithet_tail c = []"
  by (simp add: epithet_tail_def lower_run_all)

lemma lower_run_is_lower: "list_all ascii_lower (lower_run e)"
  by (auto simp: lower_run_def list_all_iff dest: set_takeWhileD)

lemma match_sp_lower: "list_all ascii_lower c \<Longrightarrow> match_sp c \<Longrightarrow> c = ''sp''"
  by (cases c rule: match_sp.cases)
     (auto simp: is_s_def is_p_def at_dollar_def ascii_lower_def split: list.splits)

lemma match_sp_code_lower: "list_all ascii_lower c \<Longrightarrow> \<not> match_sp_code c"
  by (cases c rule: match_sp_code.cases) (auto simp: ascii_lower_def)

lemma py_lower_lower: "list_all ascii_lower c \<Longrightarrow> py_lower c = c"
  by (induction c) (auto simp: py_lower_def py_lower_char_def ascii_lower_not_upper)

lemma is_uncertain_lower: "list_all ascii_lower c \<Longrightarrow> \<not> is_uncertain c"
  by (auto simp: is_uncertain_def py_lower_lower ascii_lower_def)

lemma lower_no_space: "list_all ascii_lower c \<Longrightarrow> no_space c"
  by (auto simp: no_space_def list_all_iff ascii_lower_not_space)

lemma binomial_shape:
  assumes "clean_species_name re species genus = Inr (Some b, t, s)"
  shows "\<exists>gp c. b = gp @ '' '' @ c \<and> c \<noteq> [] \<and> list_all ascii_lower c \<and> trimmed gp"
proof -
  from assms obtain sv where sv: "species = Some sv" "sv \<noteq> []"
    by (cases species) (auto simp: clean_species_name_def split: if_splits)
  with assms obtain str where str: "remove_doubled_genus re genus (py_strip sv) = Inr str"
    by (auto simp: clean_species_name_def split: sum.splits)
  with sv assms have cs: "classify_str genus str = Inr (Some b, t, s)"
    by (simp add: clean_species_name_str)
  then have ne: "py_split str \<noteq> []" by (auto simp: classify_str_def)
  then obtain q where q: "resolve_genus genus (py_split str) = Inr q"
    using resolve_genus_split by blast
  with cs ne obtain gp rem where gr: "q = Some (gp, rem)"
    by (cases q) (auto simp: classify_str_def)
  with q cs have cr: "classify_remaining gp rem str = (Some b, t, s)"
    by (simp add: classify_str_resolved)
  then obtain e where e: "lower_run e \<noteq> []" "b = gp @ '' '' @ lower_run e"
    using classify_remaining_shapes [of gp rem str] by auto
  have "trimmed gp"
  proof -
    from q gr have "(gp = hd (py_split str) \<and> gp \<noteq> [])
          \<or> (\<exists>g. gp = py_strip g)"
      using resolve_genus_parts [of genus "py_split str" gp rem] by auto
    then show ?thesis
    proof
      assume "gp = hd (py_split str) \<and> gp \<noteq> []"
      with ne have "gp \<in> set (py_split str)" by simp
      then have "no_space gp" using py_split_tokens by blast
      then show ?thesis by (rule no_space_trimmed)
    next
      assume "\<exists>g. gp = py_strip g"
      then show ?thesis using trimmed_py_strip by auto
    qed
  qed
  with e lower_run_is_lower show ?thesis by blast
qed

lemma rerun_binomial:
  assumes "trimmed gp" and "c \<noteq> []" and "list_all ascii_lower c"
    and "py_split (gp @ '' '' @ c) = [x, y]" and "py_isupper (hd x)" and "y \<noteq> ''sp''"
  shows "clean_species_name re (Some (gp @ '' '' @ c)) None = Inr (Some (gp @ '' '' @ c), None, None)"
proof -
  have nc: "no_space c" using assms(3) by (rule lower_no_space)
  have sp: "py_isspace CHR '' ''" by (simp add: py_isspace_def)
  have "py_split (gp @ CHR '' '' # c) = py_split gp @ [c]"
    unfolding py_split_def using sp nc assms(2) by (rule split_from_last_word)
  with assms(4) have sg: "py_split gp = [x]" and y: "y = c" by auto
  from assms(1) sg have gx: "gp = x" by (rule py_split_single)
  have "x \<in> set (py_split gp)" using sg by simp
  then have xne: "x \<noteq> []" and nx: "no_space x" using py_split_tokens by blast+
  define b where "b = x @ '' '' @ c"
  have bne: "b \<noteq> []" by (simp add: b_def)
  have "hd b = hd x" using xne by (simp add: b_def)
  moreover have "last b = last c" using assms(2) by (simp add: b_def)
  moreover have "\<not> py_isspace (last c)"
    using nc assms(2) by (auto simp: no_space_def list_all_iff)
  ultimately have "trimmed b"
    using assms(5) upper_not_space by (simp add: trimmed_def)
  then have st: "py_strip b = b" by (rule py_strip_trimmed)
  have rm: "remove_doubled_genus re None (py_strip b) = Inr b"
    by (simp add: st remove_doubled_genus_absent genus_given_def)
  have sb: "py_split b = [x, c]" using assms(4) gx y by (simp add: b_def)
  have rg: "resolve_genus None (py_split b) = Inr (Some (x, [c]))"
    using xne assms(5) by (simp add: sb resolve_genus_token)
  have "c \<noteq> ''sp''" using assms(6) y by simp
  then have 1: "\<not> match_sp c" using match_sp_lower [OF assms(3)] by blast
  have 2: "\<not> match_sp_code c" using assms(3) by (rule match_sp_code_lower)
  have 3: "\<not> is_uncertain c" using assms(3) by (rule is_uncertain_lower)
  have 4: "lower_run c \<noteq> []" using assms(2,3) by (simp add: lower_run_all)
  have "classify_remaining x [c] b = (Some b, None, None)"
    using classify_remaining_epithet [OF 1 2 3 4, of x "[]" b] assms(3)
    by (simp add: lower_run_all epithet_tail_all b_def)
  with rg have "classify_str None b = Inr (Some b, None, None)"
    by (simp add: classify_str_resolved)
  then have "clean_species_name re (Some b) None = Inr (Some b, None, None)"
    using bne rm by (simp add: clean_species_name_str)
  then show ?thesis using gx by (simp add: b_def)
qed

subsection \<open>The doubled genus, for a genus without special characters\<close>

lemma lit_then_iff: "lit_then g k s \<longleftrightarrow> (\<exists>r. s = g @ r \<and> k r)"
  by (auto simp: lit_then_def prefix_def)

lemma ws_then_iff:
  "ws_then k s \<longleftrightarrow> (\<exists>w r. w \<noteq> [] \<and> list_all py_isspace w \<and> s = w @ r \<and> k r)"
proof (induction s)
  case Nil
  then show ?case by simp
next
  case (Cons c cs)
  show ?case
  proof
    assume "ws_then k (c # cs)"
    then have c: "py_isspace c" and "k cs \<or> ws_then k cs" by auto
    from this(2) show "\<exists>w r. w \<noteq> [] \<and> list_all py_isspace w \<and> c # cs = w @ r \<and> k r"
    proof
      assume "k cs"
      with c have "[c] \<noteq> [] \<and> list_all py_isspace [c] \<and> c # cs = [c] @ cs \<and> k cs" by simp
      then show ?thesis by blast
    next
      assume "ws_then k cs"
      with Cons.IH obtain w r where "w \<noteq> []" "list_all py_isspace w" "cs = w @ r" "k r"
        by blast
      with c have "c # w \<noteq> [] \<and> list_all py_isspace (c # w) \<and> c # cs = (c # w) @ r \<and> k r"
        by simp
      then show ?thesis by blast
    qed
  next
    assume "\<exists>w r. w \<noteq> [] \<and> list_all py_isspace w \<and> c # cs = w @ r \<and> k r"
    then obtain w r where w: "w \<noteq> []" "list_all py_isspace w" "c # cs = w @ r" "k r"
      by blast
    then obtain w' where w': "w = c # w'" by (cases w) auto
    with w have c: "py_isspace c" and cs: "cs = w' @ r" and a: "list_all py_isspace w'" by auto
    show "ws_then k (c # cs)"
    proof (cases "w' = []")
      case True
      with cs w(4) c show ?thesis by simp
    next
      case False
      with a cs w(4) have "ws_then k cs" using Cons.IH by blast
      with c show ?thesis by simp
    qed
  qed
qed

lemma match_doubled_plain_iff:
  "match_doubled_plain g s \<longleftrightarrow>
     (\<exists>w1 w2 rest. w1 \<noteq> [] \<and> list_all py_isspace w1 \<and> w2 \<noteq> [] \<and> list_all py_isspace w2
        \<and> s = g @ w1 @ g @ w2 @ rest)"
  unfolding match_doubled_plain_def lit_then_iff ws_then_iff by blast

lemma strips_one_genus:
  assumes "trimmed g" and "g \<noteq> []" and "list_all py_isspace w1"
  shows "dropWhile py_isspace (drop (length g) (g @ w1 @ g @ r)) = g @ r"
proof -
  from assms(1,2) have "\<not> py_isspace (hd g)" by (simp add: trimmed_def)
  with assms(2) have "dropWhile py_isspace (g @ r) = g @ r"
    by (cases g) auto
  moreover have "dropWhile py_isspace (w1 @ g @ r) = dropWhile py_isspace (g @ r)"
    using assms(3) by (induction w1) auto
  ultimately show ?thesis by simp
qed

lemma doubled_genus_plain:
  assumes "g \<noteq> []" and "plain_text (py_strip g)"
  shows "remove_doubled_genus re (Some g) s =
     Inr (if (\<exists>w1 w2 rest. w1 \<noteq> [] \<and> list_all py_isspace w1 \<and> w2 \<noteq> [] \<and> list_all py_isspace w2
               \<and> s = py_strip g @ w1 @ py_strip g @ w2 @ rest)
          then dropWhile py_isspace (drop (length (py_strip g)) s) else s)"
  using assms remove_doubled_genus_plain [of "Some g" g re s]
  by (simp add: genus_given_def match_doubled_plain_iff)

lemma blank_species_plain_genus:
  assumes "plain_genus genus" and "py_strip sv = []"
  shows "clean_species_name re (Some sv) genus = Inr (None, None, None)"
proof (cases "genus_given genus")
  case None
  then show ?thesis using assms(2)
    by (simp add: clean_species_name_def remove_doubled_genus_absent classify_str_def py_split_def)
next
  case (Some g)
  with assms(1) have "plain_text (py_strip g)" by (simp add: plain_genus_def)
  then have "remove_doubled_genus re genus [] = Inr []"
    using Some by (simp add: remove_doubled_genus_plain match_doubled_plain_def lit_then_def)
  then show ?thesis using assms(2)
    by (simp add: clean_species_name_def classify_str_def py_split_def)
qed

lemma remove_doubled_genus_plain_str:
  assumes "plain_genus genus"
  shows "remove_doubled_genus re genus s = Inr (plain_species_str genus s)"
proof (cases "genus_given genus")
  case None
  then show ?thesis by (simp add: remove_doubled_genus_absent plain_species_str_def)
next
  case (Some g)
  with assms have "plain_text (py_strip g)" by (simp add: plain_genus_def)
  with Some show ?thesis by (simp add: remove_doubled_genus_plain plain_species_str_def)
qed

lemma classify_str_cases:
  assumes "py_split str \<noteq> []"
  shows "\<exists>r. classify_str genus str = Inr r
           \<and> (r = (None, None, Some str)
                \<or> (\<exists>gp e after. resolve_genus genus (py_split str) = Inr (Some (gp, e # after))
                      \<and> \<not> match_sp e \<and> \<not> match_sp_code e \<and> \<not> is_uncertain e
                      \<and> lower_run e \<noteq> [] \<and> fst r = Some (gp @ '' '' @ lower_run e)))"
proof -
  obtain q where q: "resolve_genus genus (py_split str) = Inr q"
    using assms resolve_genus_split by blast
  show ?thesis
  proof (cases q)
    case None
    with q assms have "classify_str genus str = Inr (None, None, Some str)"
      by (simp add: classify_str_def)
    then show ?thesis by simp
  next
    case (Some pr)
    then obtain gp rem where pr: "q = Some (gp, rem)" by (cases pr) auto
    with q have r: "classify_str genus str = Inr (classify_remaining gp rem str)"
      by (simp add: classify_str_resolved)
    from classify_remaining_shapes [of gp rem str] show ?thesis
    proof
      assume "classify_remaining gp rem str = (None, None, Some str)"
      with r show ?thesis by simp
    next
      assume "\<exists>e after. rem = e # after \<and> \<not> match_sp e \<and> \<not> match_sp_code e \<and> \<not> is_uncertain e
        \<and> lower_run e \<noteq> [] \<and> fst (classify_remaining gp rem str) = Some (gp @ '' '' @ lower_run e)"
      then obtain e after where e: "rem = e # after" "\<not> match_sp e" "\<not> match_sp_code e"
        "\<not> is_uncertain e" "lower_run e \<noteq> []"
        "fst (classify_remaining gp rem str) = Some (gp @ '' '' @ lower_run e)" by blast
      have res: "resolve_genus genus (py_split str) = Inr (Some (gp, e # after))"
        using q pr e(1) by simp
      have "\<exists>gp' e' after'. resolve_genus genus (py_split str) = Inr (Some (gp', e' # after'))
                      \<and> \<not> match_sp e' \<and> \<not> match_sp_code e' \<and> \<not> is_uncertain e'
                      \<and> lower_run e' \<noteq> []
                      \<and> fst (classify_remaining gp rem str) = Some (gp' @ '' '' @ lower_run e')"
        apply (rule exI [of _ gp], rule exI [of _ e], rule exI [of _ after])
        using res e(2-6) by simp
      then show ?thesis
        apply (intro exI [of _ "classify_remaining gp rem str"] conjI)
        using r by simp_all
    qed
  qed
qed

section \<open>The claims\<close>

text \<open>
  Claim C1, as amended. For every species value and every genus that is absent, empty or
  free of the special characters of \<open>re\<close>, \<open>clean_species_name\<close> returns normally, and
  the result is the same whatever the regex module does. The result is all absent only
  when there is nothing to classify: the species value is absent or empty, or
  \<open>species_str\<close> has no token. Otherwise either a lowercase-leading epithet is isolated
  and the binomial is present, or the result is \<open>(absent, absent, suffix)\<close> with the
  suffix equal to \<open>species_str\<close>. Here \<open>species_str\<close> is the trimmed species string,
  without its first genus and the whitespace after it when it begins with the genus
  twice, and the trimmed original in every other case.
\<close>

theorem returns_normally_plain_genus:
  assumes "plain_genus genus"
  shows "\<exists>r. clean_species_name re species genus = Inr r
           \<and> clean_species_name re' species genus = Inr r
           \<and> (case species of
                None \<Rightarrow> r = (None, None, None)
              | Some sv \<Rightarrow>
                  if sv = [] then r = (None, None, None)
                  else (\<exists>str. str = plain_species_str genus (py_strip sv)
                         \<and> remove_doubled_genus re genus (py_strip sv) = Inr str
                         \<and> (if py_split str = [] then r = (None, None, None)
                              else r = (None, None, Some str)
                                   \<or> (\<exists>gp e after.
                                         resolve_genus genus (py_split str) = Inr (Some (gp, e # after))
                                         \<and> \<not> match_sp e \<and> \<not> match_sp_code e
                                         \<and> \<not> is_uncertain e \<and> lower_run e \<noteq> []
                                         \<and> fst r = Some (gp @ '' '' @ lower_run e)))))"
proof (cases "species = None \<or> species = Some []")
  case True
  then show ?thesis by (auto simp: clean_species_name_def)
next
  case False
  then obtain sv where sv: "species = Some sv" "sv \<noteq> []" by auto
  define str where "str = plain_species_str genus (py_strip sv)"
  have s1: "remove_doubled_genus re genus (py_strip sv) = Inr str"
    unfolding str_def using assms by (rule remove_doubled_genus_plain_str)
  have s2: "remove_doubled_genus re' genus (py_strip sv) = Inr str"
    unfolding str_def using assms by (rule remove_doubled_genus_plain_str)
  have c1: "clean_species_name re species genus = classify_str genus str"
    using sv s1 by (simp add: clean_species_name_str)
  have c2: "clean_species_name re' species genus = classify_str genus str"
    using sv s2 by (simp add: clean_species_name_str)
  show ?thesis
  proof (cases "py_split str = []")
    case True
    then have "classify_str genus str = Inr (None, None, None)"
      by (simp add: classify_str_def)
    with c1 c2 sv s1 True show ?thesis by (simp add: str_def)
  next
    case False
    from classify_str_cases [OF False, of genus] obtain r where
      r: "classify_str genus str = Inr r"
      and d: "r = (None, None, Some str)
                \<or> (\<exists>gp e after. resolve_genus genus (py_split str) = Inr (Some (gp, e # after))
                      \<and> \<not> match_sp e \<and> \<not> match_sp_code e \<and> \<not> is_uncertain e
                      \<and> lower_run e \<noteq> [] \<and> fst r = Some (gp @ '' '' @ lower_run e))"
      by blast
    show ?thesis
    proof (intro exI [of _ r] conjI)
      show "clean_species_name re species genus = Inr r" using c1 r by simp
      show "clean_species_name re' species genus = Inr r" using c2 r by simp
      have "\<exists>s. s = plain_species_str genus (py_strip sv)
                 \<and> remove_doubled_genus re genus (py_strip sv) = Inr s
                 \<and> (if py_split s = [] then r = (None, None, None)
                      else r = (None, None, Some s)
                           \<or> (\<exists>gp e after.
                                 resolve_genus genus (py_split s) = Inr (Some (gp, e # after))
                                 \<and> \<not> match_sp e \<and> \<not> match_sp_code e
                                 \<and> \<not> is_uncertain e \<and> lower_run e \<noteq> []
                                 \<and> fst r = Some (gp @ '' '' @ lower_run e)))"
        apply (rule exI [of _ str])
        using s1 False d by (simp add: str_def)
      then show "case species of
                None \<Rightarrow> r = (None, None, None)
              | Some sv \<Rightarrow>
                  if sv = [] then r = (None, None, None)
                  else (\<exists>str. str = plain_species_str genus (py_strip sv)
                         \<and> remove_doubled_genus re genus (py_strip sv) = Inr str
                         \<and> (if py_split str = [] then r = (None, None, None)
                              else r = (None, None, Some str)
                                   \<or> (\<exists>gp e after.
                                         resolve_genus genus (py_split str) = Inr (Some (gp, e # after))
                                         \<and> \<not> match_sp e \<and> \<not> match_sp_code e
                                         \<and> \<not> is_uncertain e \<and> lower_run e \<noteq> []
                                         \<and> fst r = Some (gp @ '' '' @ lower_run e))))"
        by (simp only: sv option.case if_False)
    qed
  qed
qed

theorem returns_normally_plain_genus_witness:
  "plain_genus (Some ''Onthophagus'')
   \<and> clean_species_name no_re (Some ''Onthophagus Onthophagus sp.'') (Some ''Onthophagus'') =
       Inr (None, None, Some ''Onthophagus sp.'')
   \<and> remove_doubled_genus no_re (Some ''Onthophagus'') (py_strip ''Onthophagus Onthophagus sp.'') =
       Inr ''Onthophagus sp.''
   \<and> plain_species_str (Some ''Onthophagus'') (py_strip ''Onthophagus Onthophagus sp.'') =
       ''Onthophagus sp.''"
proof -
  have h: "plain_genus (Some ''Onthophagus'')"
    by (simp add: plain_genus_def genus_given_def py_strip_def py_isspace_def plain_text_def re_special_def)
  from returns_normally_plain_genus [OF h, of no_re "Some ''Onthophagus Onthophagus sp.''" no_re]
  show ?thesis using h by (simp add: run_defs plain_species_str_def)
qed

theorem returns_normally_counterexample:
  "clean_species_name no_re (Some ''Onthophagus incensus'') (Some ''?'') = Inl ReError
   \<and> py_strip ''Aus Aus Bus'' = ''Aus Aus Bus''
   \<and> clean_species_name no_re (Some ''Aus Aus Bus'') (Some ''Aus'') = Inr (None, None, Some ''Aus Bus'')"
  by (simp add: run_defs)

text \<open>
  Claim C2, as amended. For every input whose classification gives a binomial made of
  exactly two whitespace-separated tokens, the first starting with an uppercase letter
  and the second not the placeholder \<open>sp\<close>, calling \<open>clean_species_name\<close> again on that
  binomial, with no genus argument, returns the same binomial with trinomial and suffix
  absent.
\<close>

theorem rerun_on_binomial:
  assumes "clean_species_name re species genus = Inr (Some b, t, s)"
    and "py_split b = [x, y]" and "py_isupper (hd x)" and "y \<noteq> ''sp''"
  shows "clean_species_name re' (Some b) None = Inr (Some b, None, None)"
proof -
  from binomial_shape [OF assms(1)] obtain gp c where
    b: "b = gp @ '' '' @ c" and c: "c \<noteq> []" "list_all ascii_lower c" and gp: "trimmed gp"
    by blast
  from assms(2) b have "py_split (gp @ '' '' @ c) = [x, y]" by simp
  from rerun_binomial [OF gp c this assms(3,4)] show ?thesis using b by simp
qed

theorem rerun_on_binomial_witness:
  "clean_species_name no_re (Some ''Onthophagus Onthophagus incensus'') (Some ''Onthophagus'') =
     Inr (Some ''Onthophagus incensus'', None, None)
   \<and> py_split ''Onthophagus incensus'' = [''Onthophagus'', ''incensus'']
   \<and> py_isupper (hd ''Onthophagus'') \<and> ''incensus'' \<noteq> ''sp''
   \<and> clean_species_name no_re (Some ''Onthophagus incensus'') None =
     Inr (Some ''Onthophagus incensus'', None, None)"
proof -
  have 1: "clean_species_name no_re (Some ''Onthophagus Onthophagus incensus'') (Some ''Onthophagus'') =
     Inr (Some ''Onthophagus incensus'', None, None)"
    by (simp add: run_defs)
  have 2: "py_split ''Onthophagus incensus'' = [''Onthophagus'', ''incensus'']"
    by (simp add: py_split_def py_isspace_def)
  have 3: "py_isupper (hd ''Onthophagus'')" by (simp add: py_isupper_def)
  have 4: "''incensus'' \<noteq> ''sp''" by simp
  from rerun_on_binomial [OF 1 2 3 4, of no_re] 1 2 3 4 show ?thesis by blast
qed

theorem rerun_on_binomial_counterexample:
  "clean_species_name no_re (Some ''incensus'') (Some ''onthophagus'') =
     Inr (Some ''onthophagus incensus'', None, None)
   \<and> clean_species_name no_re (Some ''onthophagus incensus'') None =
     Inr (None, None, Some ''onthophagus incensus'')
   \<and> clean_species_name no_re (Some ''Onthophagus spX auratus'') None =
     Inr (Some ''Onthophagus sp'', Some ''Onthophagus sp auratus'', None)
   \<and> clean_species_name no_re (Some ''Onthophagus sp'') None =
     Inr (None, None, Some ''Onthophagus sp'')"
  by (simp add: run_defs)

text \<open>
  Claim C3, as amended. For a species string that still has a token after trimming and
  doubled-genus removal, either a lowercase-leading epithet is isolated and the binomial
  is present, or the result is \<open>(absent, absent, suffix)\<close> with the suffix equal to the
  whole of \<open>species_str\<close>, the trimmed string after doubled-genus removal, never a part
  of it. With no genus argument \<open>species_str\<close> is the trimmed original.
\<close>

theorem degraded_suffix_is_species_str:
  assumes "sv \<noteq> []"
    and "remove_doubled_genus re genus (py_strip sv) = Inr str"
    and "py_split str \<noteq> []"
  shows "\<exists>r. clean_species_name re (Some sv) genus = Inr r
           \<and> (r = (None, None, Some str)
                \<or> (\<exists>gp e after. resolve_genus genus (py_split str) = Inr (Some (gp, e # after))
                      \<and> \<not> match_sp e \<and> \<not> match_sp_code e \<and> \<not> is_uncertain e
                      \<and> lower_run e \<noteq> [] \<and> fst r = Some (gp @ '' '' @ lower_run e)))
           \<and> (genus_given genus = None \<longrightarrow> str = py_strip sv)"
proof -
  have c: "clean_species_name re (Some sv) genus = classify_str genus str"
    using assms(1,2) by (rule clean_species_name_str)
  have g: "genus_given genus = None \<longrightarrow> str = py_strip sv"
    using assms(2) by (auto simp: remove_doubled_genus_absent)
  obtain q where q: "resolve_genus genus (py_split str) = Inr q"
    using assms(3) resolve_genus_split by blast
  show ?thesis
  proof (cases q)
    case None
    with q assms(3) have "classify_str genus str = Inr (None, None, Some str)"
      by (simp add: classify_str_def)
    with c g show ?thesis by simp
  next
    case (Some pr)
    then obtain gp rem where pr: "q = Some (gp, rem)" by (cases pr) auto
    with q have r: "classify_str genus str = Inr (classify_remaining gp rem str)"
      by (simp add: classify_str_resolved)
    from classify_remaining_shapes [of gp rem str] show ?thesis
    proof
      assume "classify_remaining gp rem str = (None, None, Some str)"
      with c r g show ?thesis by simp
    next
      assume "\<exists>e after. rem = e # after \<and> \<not> match_sp e \<and> \<not> match_sp_code e \<and> \<not> is_uncertain e
        \<and> lower_run e \<noteq> [] \<and> fst (classify_remaining gp rem str) = Some (gp @ '' '' @ lower_run e)"
      then obtain e after where "rem = e # after" "\<not> match_sp e" "\<not> match_sp_code e"
        "\<not> is_uncertain e" "lower_run e \<noteq> []"
        "fst (classify_remaining gp rem str) = Some (gp @ '' '' @ lower_run e)" by blast
      note e = this
      have res: "resolve_genus genus (py_split str) = Inr (Some (gp, e # after))"
        using q pr e(1) by simp
      have "clean_species_name re (Some sv) genus = Inr (classify_remaining gp rem str)"
        using c r by simp
      note cl = this
      have "\<exists>gp' e' after'. resolve_genus genus (py_split str) = Inr (Some (gp', e' # after'))
                      \<and> \<not> match_sp e' \<and> \<not> match_sp_code e' \<and> \<not> is_uncertain e'
                      \<and> lower_run e' \<noteq> []
                      \<and> fst (classify_remaining gp rem str) = Some (gp' @ '' '' @ lower_run e')"
        apply (rule exI [of _ gp], rule exI [of _ e], rule exI [of _ after])
        using res e(2-6) by simp
      then show ?thesis
        apply (intro exI [of _ "classify_remaining gp rem str"] conjI)
        using cl g by simp_all
    qed
  qed
qed

theorem degraded_suffix_is_species_str_witness:
  "remove_doubled_genus no_re (Some ''Homo'') (py_strip ''Homo Homo Sapiens'') = Inr ''Homo Sapiens''
   \<and> py_split ''Homo Sapiens'' \<noteq> []
   \<and> clean_species_name no_re (Some ''Homo Homo Sapiens'') (Some ''Homo'') =
       Inr (None, None, Some ''Homo Sapiens'')"
proof -
  have 1: "''Homo Homo Sapiens'' \<noteq> []" by simp
  have 2: "remove_doubled_genus no_re (Some ''Homo'') (py_strip ''Homo Homo Sapiens'') = Inr ''Homo Sapiens''"
    by (simp add: run_defs)
  have 3: "py_split ''Homo Sapiens'' \<noteq> []" by (simp add: py_split_def py_isspace_def)
  from degraded_suffix_is_species_str [OF 1 2 3] 2 3 show ?thesis
    by (simp add: run_defs)
qed

theorem degraded_suffix_counterexample:
  "lower_run ''123'' = []
   \<and> py_strip ''Carabus Carabus 123'' = ''Carabus Carabus 123''
   \<and> clean_species_name no_re (Some ''Carabus Carabus 123'') (Some ''Carabus'') =
       Inr (None, None, Some ''Carabus 123'')"
  by (simp add: run_defs)

text \<open>
  Claim C4. The doubled-genus removal is to fire exactly when the trimmed species string
  begins with the genus, whitespace, the genus again and whitespace, and then to strip
  one genus and the whitespace after it; \<open>doubled_genus_plain\<close> above shows that for a
  genus free of special characters. Lines 56 to 58 do not escape the genus: with the
  genus \<open>?\<close> the species string \<open>? ? sp.\<close> begins with the genus twice, yet
  \<open>re.match\<close> raises \<open>re.error\<close> and the call does not return.
\<close>

theorem doubled_genus_not_escaped:
  "py_strip ''? ? sp.'' = ''?'' @ '' '' @ ''?'' @ '' '' @ ''sp.''
   \<and> remove_doubled_genus re (Some ''?'') (py_strip ''? ? sp.'') = Inl ReError
   \<and> clean_species_name re (Some ''? ? sp.'') (Some ''?'') = Inl ReError"
  by (simp add: run_defs)

text \<open>
  Claim C5. Whenever the classifier returns, an absent binomial comes with an absent
  trinomial, and a present trinomial is the present binomial, a single space and a
  subspecies token that matches \<open>^[a-z]+$\<close>.
\<close>

theorem trinomial_implies_binomial:
  assumes "clean_species_name re species genus = Inr (b, t, s)"
  shows "(b = None \<longrightarrow> t = None) \<and>
         (\<forall>tr. t = Some tr \<longrightarrow>
            (\<exists>bn tok. b = Some bn \<and> tr = bn @ '' '' @ tok \<and> match_subspecies tok))"
proof (cases "species = None \<or> species = Some []")
  case True
  with assms show ?thesis by (auto simp: clean_species_name_def)
next
  case False
  then obtain sv where sv: "species = Some sv" "sv \<noteq> []" by auto
  with assms obtain str where str: "remove_doubled_genus re genus (py_strip sv) = Inr str"
    by (auto simp: clean_species_name_def split: sum.splits)
  with sv assms have cs: "classify_str genus str = Inr (b, t, s)"
    by (simp add: clean_species_name_str)
  show ?thesis
  proof (cases "py_split str = []")
    case True
    with cs show ?thesis by (auto simp: classify_str_def)
  next
    case False
    then obtain r where r: "resolve_genus genus (py_split str) = Inr r"
      using resolve_genus_split by blast
    show ?thesis
    proof (cases r)
      case None
      with r cs False show ?thesis by (auto simp: classify_str_def)
    next
      case (Some pr)
      then obtain gp rem where "r = Some (gp, rem)" by (cases pr) auto
      with r cs have "classify_remaining gp rem str = (b, t, s)"
        by (simp add: classify_str_resolved)
      then show ?thesis by (rule classify_remaining_trinomial)
    qed
  qed
qed

theorem trinomial_implies_binomial_witness:
  "clean_species_name no_re (Some ''Onthophagus incensus auratus'') None =
     Inr (Some ''Onthophagus incensus'', Some ''Onthophagus incensus auratus'', None)
   \<and> (\<exists>tok. ''Onthophagus incensus auratus'' = ''Onthophagus incensus'' @ '' '' @ tok \<and> match_subspecies tok)"
proof -
  have e: "clean_species_name no_re (Some ''Onthophagus incensus auratus'') None =
     Inr (Some ''Onthophagus incensus'', Some ''Onthophagus incensus auratus'', None)"
    by (simp add: run_defs)
  from trinomial_implies_binomial [OF e] show ?thesis using e by simp
qed

text \<open>
  Claim C6, as amended. If the epithet token matches \<open>^sp\.?$\<close> or \<open>^sp[._]\<close> without
  regard to case, or its lowercase form is \<open>aff.\<close> or \<open>cf.\<close>, the result is
  \<open>(absent, absent, suffix)\<close> with the suffix equal to \<open>species_str\<close>, the trimmed
  string after doubled-genus removal; with no genus argument that is the trimmed
  original. The two examples of the claim hold as they are written.
\<close>

theorem placeholder_epithet_degrades:
  assumes "sv \<noteq> []"
    and "remove_doubled_genus re genus (py_strip sv) = Inr str"
    and "resolve_genus genus (py_split str) = Inr (Some (gp, e # after))"
    and "match_sp e \<or> match_sp_code e \<or> is_uncertain e"
  shows "clean_species_name re (Some sv) genus = Inr (None, None, Some str)
         \<and> (genus_given genus = None \<longrightarrow> str = py_strip sv)
         \<and> clean_species_name re (Some ''Onthophagus sp.'') None = Inr (None, None, Some ''Onthophagus sp.'')
         \<and> clean_species_name re (Some ''Onthophagus sp._13YB'') None = Inr (None, None, Some ''Onthophagus sp._13YB'')"
proof -
  have "clean_species_name re (Some sv) genus = Inr (classify_remaining gp (e # after) str)"
    using assms(1-3) by (simp add: clean_species_name_str classify_str_resolved)
  then have 1: "clean_species_name re (Some sv) genus = Inr (None, None, Some str)"
    using assms(4) by (simp add: classify_remaining_placeholder)
  have 2: "genus_given genus = None \<longrightarrow> str = py_strip sv"
    using assms(2) by (auto simp: remove_doubled_genus_absent)
  have 3: "clean_species_name re (Some ''Onthophagus sp.'') None = Inr (None, None, Some ''Onthophagus sp.'')"
    by (simp add: run_defs)
  have 4: "clean_species_name re (Some ''Onthophagus sp._13YB'') None = Inr (None, None, Some ''Onthophagus sp._13YB'')"
    by (simp add: run_defs)
  from 1 2 3 4 show ?thesis by blast
qed

theorem placeholder_epithet_degrades_witness:
  "resolve_genus None (py_split ''Onthophagus cf. incensus'') =
       Inr (Some (''Onthophagus'', [''cf.'', ''incensus'']))
   \<and> is_uncertain ''cf.''
   \<and> clean_species_name no_re (Some ''Onthophagus cf. incensus'') None =
       Inr (None, None, Some ''Onthophagus cf. incensus'')"
proof -
  have 1: "''Onthophagus cf. incensus'' \<noteq> []" by simp
  have 2: "remove_doubled_genus no_re None (py_strip ''Onthophagus cf. incensus'') =
             Inr ''Onthophagus cf. incensus''"
    by (simp add: run_defs)
  have 3: "resolve_genus None (py_split ''Onthophagus cf. incensus'') =
             Inr (Some (''Onthophagus'', [''cf.'', ''incensus'']))"
    by (simp add: py_split_def py_isspace_def py_isupper_def)
  have 4: "is_uncertain ''cf.''"
    by (simp add: is_uncertain_def py_lower_def py_lower_char_def py_isupper_def)
  have 5: "match_sp ''cf.'' \<or> match_sp_code ''cf.'' \<or> is_uncertain ''cf.''" using 4 by simp
  from placeholder_epithet_degrades [OF 1 2 3 5] 3 4 show ?thesis by simp
qed

theorem placeholder_suffix_counterexample:
  "resolve_genus (Some ''Homo'') (py_split ''Homo sp.'') = Inr (Some (''Homo'', [''sp.'']))
   \<and> match_sp ''sp.''
   \<and> py_strip ''Homo Homo sp.'' = ''Homo Homo sp.''
   \<and> clean_species_name no_re (Some ''Homo Homo sp.'') (Some ''Homo'') =
       Inr (None, None, Some ''Homo sp.'')"
  by (simp add: run_defs)

text \<open>
  Claim C7. When a binomial is formed and a token follows the epithet: if that token
  matches \<open>^[a-z]+$\<close> the trinomial is the binomial, a space and the token, and the suffix
  is the single-space join of the tokens after it (absent if there are none); otherwise
  the trinomial is absent and the suffix is the single-space join of all tokens after the
  epithet, with a non-empty epithet tail and one space put before it.
\<close>

theorem subspecies_or_suffix:
  assumes "sv \<noteq> []"
    and "remove_doubled_genus re genus (py_strip sv) = Inr str"
    and "resolve_genus genus (py_split str) = Inr (Some (gp, e # n # rest))"
    and "\<not> match_sp e" "\<not> match_sp_code e" "\<not> is_uncertain e" "lower_run e \<noteq> []"
  shows "clean_species_name re (Some sv) genus =
     Inr (if match_subspecies n
          then (Some (gp @ '' '' @ lower_run e), Some ((gp @ '' '' @ lower_run e) @ '' '' @ n),
                if rest = [] then None else Some (join_space rest))
          else (Some (gp @ '' '' @ lower_run e), None,
                Some ((if epithet_tail e = [] then [] else epithet_tail e @ '' '') @ join_space (n # rest))))"
proof -
  have "n \<noteq> []" using remaining_tokens [OF assms(3)] by simp
  then have j: "join_space (n # rest) \<noteq> []" by (rule join_space_nonempty)
  have "clean_species_name re (Some sv) genus = Inr (classify_remaining gp (e # n # rest) str)"
    using assms(1-3) by (simp add: clean_species_name_str classify_str_resolved)
  then show ?thesis using j
    by (simp add: classify_remaining_epithet [OF assms(4-7)])
qed

theorem subspecies_or_suffix_witness:
  "clean_species_name no_re (Some ''Onthophagus incensus auratus X1 y'') None =
       Inr (Some ''Onthophagus incensus'', Some ''Onthophagus incensus auratus'', Some ''X1 y'')
   \<and> clean_species_name no_re (Some ''Onthophagus incensusA B2 c'') None =
       Inr (Some ''Onthophagus incensus'', None, Some ''A B2 c'')"
proof -
  have r1: "remove_doubled_genus no_re None (py_strip ''Onthophagus incensus auratus X1 y'') =
             Inr ''Onthophagus incensus auratus X1 y''"
    by (simp add: run_defs)
  have g1: "resolve_genus None (py_split ''Onthophagus incensus auratus X1 y'') =
             Inr (Some (''Onthophagus'', [''incensus'', ''auratus'', ''X1'', ''y'']))"
    by (simp add: py_split_def py_isspace_def py_isupper_def)
  have e1: "\<not> match_sp ''incensus''" "\<not> match_sp_code ''incensus''"
    "\<not> is_uncertain ''incensus''" "lower_run ''incensus'' \<noteq> []"
    by (simp_all add: run_defs)
  have r2: "remove_doubled_genus no_re None (py_strip ''Onthophagus incensusA B2 c'') =
             Inr ''Onthophagus incensusA B2 c''"
    by (simp add: run_defs)
  have g2: "resolve_genus None (py_split ''Onthophagus incensusA B2 c'') =
             Inr (Some (''Onthophagus'', [''incensusA'', ''B2'', ''c'']))"
    by (simp add: py_split_def py_isspace_def py_isupper_def)
  have e2: "\<not> match_sp ''incensusA''" "\<not> match_sp_code ''incensusA''"
    "\<not> is_uncertain ''incensusA''" "lower_run ''incensusA'' \<noteq> []"
    by (simp_all add: run_defs)
  have a: "clean_species_name no_re (Some ''Onthophagus incensus auratus X1 y'') None =
       Inr (Some ''Onthophagus incensus'', Some ''Onthophagus incensus auratus'', Some ''X1 y'')"
    using subspecies_or_suffix [OF _ r1 g1 e1]
    by (simp add: match_subspecies_def ascii_lower_def at_dollar_def lower_run_def)
  have b: "clean_species_name no_re (Some ''Onthophagus incensusA B2 c'') None =
       Inr (Some ''Onthophagus incensus'', None, Some ''A B2 c'')"
    using subspecies_or_suffix [OF _ r2 g2 e2]
    by (simp add: match_subspecies_def ascii_lower_def at_dollar_def lower_run_def epithet_tail_def)
  from a b show ?thesis by simp
qed

text \<open>
  Claim C8. An absent or empty species value gives all absent for every genus, and so
  does a whitespace-only one with an ordinary genus (\<open>blank_species_plain_genus\<close>
  above). A whitespace-only species value with the genus \<open>?\<close> reaches line 57 before
  the test of line 63, and \<open>re.match\<close> raises \<open>re.error\<close>.
\<close>

theorem blank_species_with_bad_genus:
  "clean_species_name re None genus = Inr (None, None, None)
   \<and> clean_species_name re (Some []) genus = Inr (None, None, None)
   \<and> py_strip ''   '' = []
   \<and> clean_species_name re (Some ''   '') (Some ''Onthophagus'') = Inr (None, None, None)
   \<and> clean_species_name re (Some ''   '') (Some ''?'') = Inl ReError"
  by (simp add: run_defs)

text \<open>
  Claim C9. When the token after the epithet is a subspecies and the epithet carries a
  non-empty glued tail, the result is built from the genus part, the lowercase run of
  the epithet, the subspecies and the later tokens only: the tail is in none of the three
  fields.
\<close>

theorem glued_tail_discarded:
  assumes "sv \<noteq> []"
    and "remove_doubled_genus re genus (py_strip sv) = Inr str"
    and "resolve_genus genus (py_split str) = Inr (Some (gp, e # n # rest))"
    and "\<not> match_sp e" "\<not> match_sp_code e" "\<not> is_uncertain e" "lower_run e \<noteq> []"
    and "epithet_tail e \<noteq> []" and "match_subspecies n"
  shows "e = lower_run e @ epithet_tail e
         \<and> clean_species_name re (Some sv) genus =
             Inr (Some (gp @ '' '' @ lower_run e), Some (gp @ '' '' @ lower_run e @ '' '' @ n),
                  if rest = [] then None else Some (join_space rest))"
proof -
  have d: "e = lower_run e @ epithet_tail e"
    by (simp add: epithet_tail_def lower_run_def dropWhile_eq_drop [symmetric])
  have "clean_species_name re (Some sv) genus = Inr (classify_remaining gp (e # n # rest) str)"
    using assms(1-3) by (simp add: clean_species_name_str classify_str_resolved)
  then show ?thesis using d assms(9)
    by (simp add: classify_remaining_epithet [OF assms(4-7)])
qed

theorem glued_tail_discarded_witness:
  "epithet_tail ''incensusX'' = ''X''
   \<and> clean_species_name no_re (Some ''Onthophagus incensusX auratus'') None =
       Inr (Some ''Onthophagus incensus'', Some ''Onthophagus incensus auratus'', None)"
proof -
  have r: "remove_doubled_genus no_re None (py_strip ''Onthophagus incensusX auratus'') =
             Inr ''Onthophagus incensusX auratus''"
    by (simp add: run_defs)
  have g: "resolve_genus None (py_split ''Onthophagus incensusX auratus'') =
             Inr (Some (''Onthophagus'', [''incensusX'', ''auratus'']))"
    by (simp add: py_split_def py_isspace_def py_isupper_def)
  have e: "\<not> match_sp ''incensusX''" "\<not> match_sp_code ''incensusX''"
    "\<not> is_uncertain ''incensusX''" "lower_run ''incensusX'' \<noteq> []"
    by (simp_all add: run_defs)
  have t: "epithet_tail ''incensusX'' = ''X''"
    by (simp add: epithet_tail_def lower_run_def ascii_lower_def)
  have t': "epithet_tail ''incensusX'' \<noteq> []" using t by simp
  have m: "match_subspecies ''auratus''"
    by (simp add: match_subspecies_def ascii_lower_def at_dollar_def)
  from glued_tail_discarded [OF _ r g e t' m] t show ?thesis
    by (simp add: lower_run_def ascii_lower_def)
qed

text \<open>
  Claim C10. When the first token of the species string does not start with an uppercase
  letter and a genus argument is given, the trimmed genus argument is the genus part as
  it is, so the binomial need not start with an uppercase letter:
  \<open>clean_species_name("incensus", "onthophagus")\<close> is
  \<open>("onthophagus incensus", None, None)\<close>.
\<close>

theorem genus_argument_verbatim:
  assumes "sv \<noteq> []"
    and "remove_doubled_genus re (Some g) (py_strip sv) = Inr str"
    and "py_split str = p # ps"
    and "\<not> py_isupper (hd p)"
    and "g \<noteq> []"
    and "clean_species_name re (Some sv) (Some g) = Inr (Some b, t, s)"
  shows "resolve_genus (Some g) (py_split str) = Inr (Some (py_strip g, p # ps))
         \<and> b = py_strip g @ '' '' @ lower_run p
         \<and> clean_species_name re (Some ''incensus'') (Some ''onthophagus'') =
             Inr (Some ''onthophagus incensus'', None, None)"
proof -
  have "p \<noteq> []" using py_split_tokens [of p str] assms(3) by simp
  then have r: "resolve_genus (Some g) (py_split str) = Inr (Some (py_strip g, p # ps))"
    using assms(3,4,5) by (simp add: resolve_genus_token genus_given_def)
  have "clean_species_name re (Some sv) (Some g) = Inr (classify_remaining (py_strip g) (p # ps) str)"
    using assms(1,2) r by (simp add: clean_species_name_str classify_str_resolved)
  with assms(6) have "classify_remaining (py_strip g) (p # ps) str = (Some b, t, s)" by simp
  then have b: "b = py_strip g @ '' '' @ lower_run p"
    using classify_remaining_shapes [of "py_strip g" "p # ps" str] by auto
  have "clean_species_name re (Some ''incensus'') (Some ''onthophagus'') =
             Inr (Some ''onthophagus incensus'', None, None)"
    by (simp add: run_defs)
  with r b show ?thesis by blast
qed

theorem genus_argument_verbatim_witness:
  "\<not> py_isupper (hd ''homo sapiens'')
   \<and> clean_species_name no_re (Some ''sapiens'') (Some ''homo'') =
       Inr (Some ''homo sapiens'', None, None)
   \<and> ''homo sapiens'' = py_strip ''homo'' @ '' '' @ lower_run ''sapiens''"
proof -
  have r: "remove_doubled_genus no_re (Some ''homo'') (py_strip ''sapiens'') = Inr ''sapiens''"
    by (simp add: run_defs)
  have s: "py_split ''sapiens'' = [''sapiens'']" by (simp add: py_split_def py_isspace_def)
  have u: "\<not> py_isupper (hd ''sapiens'')" by (simp add: py_isupper_def)
  have c: "clean_species_name no_re (Some ''sapiens'') (Some ''homo'') =
       Inr (Some ''homo sapiens'', None, None)"
    by (simp add: run_defs)
  from genus_argument_verbatim [OF _ r s u _ c] c show ?thesis
    by (simp add: run_defs)
qed

end
